theory Spec2Isabelle
  imports Main "HOL-Library.Multiset" "HOL-Library.Sublist"
begin

section \<open>Python values\<close>

text \<open>
  A Python \<open>str\<close> is a sequence of Unicode code points; \<open>len\<close> counts code points.
  A text is therefore a list of code points, and \<open>ustr\<close> turns a literal into one.
\<close>

type_synonym str = "nat list"

definition ustr :: "string \<Rightarrow> str" where
  "ustr s = map of_char s"

text \<open>The slice \<open>xs[:n]\<close>: a negative \<open>n\<close> counts from the end of the list.\<close>

definition slice_to :: "int \<Rightarrow> 'a list \<Rightarrow> 'a list" where
  "slice_to n xs =
     (if 0 \<le> n then take (nat n) xs else take (length xs - nat (- n)) xs)"

section \<open>The crawler of \<open>RAG_Scrapper.py\<close>\<close>

text \<open>The fields of \<open>PDFNewsScraper.__init__\<close> that are plain numbers.\<close>

record scraper =
  max_depth :: int
  num_pdfs :: int
  workers :: int
  timeout :: int

text \<open>
  The crawler talks to the site twice for every page it processes: once inside
  \<open>_extract_pdf_links\<close> and once for the link expansion. Each request is an event of
  the trace, with the page, its depth and what the request gave.
\<close>

datatype event =
  Extracted str int "str list"
| Expanded str int "str list"

fun event_url :: "event \<Rightarrow> str" where
  "event_url (Extracted u d r) = u"
| "event_url (Expanded u d r) = u"

fun event_depth :: "event \<Rightarrow> int" where
  "event_depth (Extracted u d r) = d"
| "event_depth (Expanded u d r) = d"

fun is_extraction :: "event \<Rightarrow> bool" where
  "is_extraction (Extracted u d r) = True"
| "is_extraction (Expanded u d r) = False"

fun is_expansion :: "event \<Rightarrow> bool" where
  "is_expansion (Extracted u d r) = False"
| "is_expansion (Expanded u d r) = True"

fun sighted :: "event \<Rightarrow> str list" where
  "sighted (Extracted u d r) = r"
| "sighted (Expanded u d r) = []"

text \<open>
  The site is outside the program. What a request returns may depend on everything the
  crawl has requested so far, so both answers take the trace.
  \<^item> \<open>extract_pdf_links h u\<close> is what \<open>_extract_pdf_links(u, session)\<close> returns, in the
    order in which the \<open>for\<close> loop walks the returned set; it is \<open>[]\<close> when the request or
    the parse raised, since the function catches every \<open>Exception\<close>.
  \<^item> \<open>page_links h u\<close> is the list of \<open>urljoin(u, a["href"])\<close> that the loop of the
    \<open>try\<close> block walks: all anchors of the page, or those before the one at which an
    exception ended the block, or \<open>[]\<close> when the request itself raised.
\<close>

record web =
  extract_pdf_links :: "event list \<Rightarrow> str \<Rightarrow> str list"
  page_links :: "event list \<Rightarrow> str \<Rightarrow> str list"

text \<open>The local variables of \<open>_discover_pdf_links\<close>, and the trace of requests.\<close>

record crawl =
  visited :: "str set"
  pdf_links :: "str list"
  seen_pdfs :: "str set"
  queue :: "(str \<times> int) list"
  trace :: "event list"

definition initial_crawl :: "str \<Rightarrow> crawl" where
  "initial_crawl base_url =
     \<lparr>visited = {}, pdf_links = [], seen_pdfs = {}, queue = [(base_url, 0)], trace = []\<rparr>"

text \<open>The body of \<open>for link in self._extract_pdf_links(url, session)\<close>.\<close>

definition add_pdf_link :: "crawl \<Rightarrow> str \<Rightarrow> crawl" where
  "add_pdf_link s link =
     (if link \<notin> seen_pdfs s
      then s\<lparr>seen_pdfs := insert link (seen_pdfs s), pdf_links := pdf_links s @ [link]\<rparr>
      else s)"

text \<open>
  The link expansion: the anchors that contain \<open>base_url\<close> as a substring and are not in
  \<open>visited\<close> join the queue at \<open>depth + 1\<close>.
\<close>

definition expand_links :: "str \<Rightarrow> str \<Rightarrow> int \<Rightarrow> crawl \<Rightarrow> str list \<Rightarrow> crawl" where
  "expand_links base_url url depth s links =
     s\<lparr>queue := queue s @
          map (\<lambda>link. (link, depth + 1))
            (filter (\<lambda>link. sublist base_url link \<and> link \<notin> visited s) links),
        trace := trace s @ [Expanded url depth links]\<rparr>"

text \<open>The part of the loop body after the \<open>continue\<close>, for the pair taken from the queue.\<close>

definition process_page :: "scraper \<Rightarrow> web \<Rightarrow> str \<Rightarrow> str \<Rightarrow> int \<Rightarrow> crawl \<Rightarrow> crawl" where
  "process_page cfg w base_url url depth s =
     (let s1 = s\<lparr>visited := insert url (visited s)\<rparr>;
          found = extract_pdf_links w (trace s1) url;
          s2 = foldl add_pdf_link (s1\<lparr>trace := trace s1 @ [Extracted url depth found]\<rparr>) found
      in if depth < max_depth cfg
         then expand_links base_url url depth s2 (page_links w (trace s2) url)
         else s2)"

text \<open>One turn of \<open>while queue\<close>: \<open>popleft\<close>, the two checks, then the page.\<close>

definition crawl_step :: "scraper \<Rightarrow> web \<Rightarrow> str \<Rightarrow> crawl \<Rightarrow> crawl" where
  "crawl_step cfg w base_url s =
     (case queue s of
        [] \<Rightarrow> s
      | (url, depth) # rest \<Rightarrow>
          if url \<in> visited s \<or> depth > max_depth cfg
          then s\<lparr>queue := rest\<rparr>
          else process_page cfg w base_url url depth (s\<lparr>queue := rest\<rparr>))"

text \<open>
  The weight of a queue entry: how many levels below the cutoff a page of that depth may
  still open. A processed entry is replaced by entries of smaller weight, so the multiset
  of weights falls in the multiset order, whatever the number of links of a page.
\<close>

definition weight :: "scraper \<Rightarrow> str \<times> int \<Rightarrow> nat" where
  "weight cfg e = nat (max_depth cfg + 1 - snd e)"

definition queue_weights :: "scraper \<Rightarrow> crawl \<Rightarrow> nat multiset" where
  "queue_weights cfg s = mset (map (weight cfg) (queue s))"

lemma queue_add_pdf_link: "queue (add_pdf_link s l) = queue s"
  by (simp add: add_pdf_link_def)

lemma queue_foldl_add: "queue (foldl add_pdf_link s ls) = queue s"
  by (induction ls arbitrary: s) (simp_all add: queue_add_pdf_link)

lemma queue_process_page:
  "\<exists>new. queue (process_page cfg w b u d s) = queue s @ map (\<lambda>l. (l, d + 1)) new
     \<and> (new \<noteq> [] \<longrightarrow> d < max_depth cfg)"
proof (cases "d < max_depth cfg")
  case True
  let ?s1 = "s\<lparr>visited := insert u (visited s)\<rparr>"
  let ?f = "extract_pdf_links w (trace ?s1) u"
  let ?s2 = "foldl add_pdf_link (?s1\<lparr>trace := trace ?s1 @ [Extracted u d ?f]\<rparr>) ?f"
  let ?new = "filter (\<lambda>l. sublist b l \<and> l \<notin> visited ?s2) (page_links w (trace ?s2) u)"
  have "queue (process_page cfg w b u d s) = queue s @ map (\<lambda>l. (l, d + 1)) ?new"
    using True by (simp add: process_page_def Let_def expand_links_def queue_foldl_add)
  with True show ?thesis by blast
next
  case False
  then have "queue (process_page cfg w b u d s) = queue s @ map (\<lambda>l. (l, d + 1)) []"
    by (simp add: process_page_def Let_def queue_foldl_add)
  then show ?thesis by blast
qed

lemma crawl_step_decreases:
  assumes "queue s \<noteq> []"
  shows "(queue_weights cfg (crawl_step cfg w b s), queue_weights cfg s) \<in> mult {(x, y). x < y}"
proof -
  obtain u d rest where q: "queue s = (u, d) # rest"
    using assms by (cases "queue s") auto
  show ?thesis
  proof (cases "u \<in> visited s \<or> d > max_depth cfg")
    case True
    then have "queue_weights cfg (crawl_step cfg w b s) = mset (map (weight cfg) rest) + {#}"
      using q by (auto simp: crawl_step_def queue_weights_def)
    moreover have "queue_weights cfg s = mset (map (weight cfg) rest) + {#weight cfg (u, d)#}"
      using q by (simp add: queue_weights_def)
    moreover have "(mset (map (weight cfg) rest) + {#},
        mset (map (weight cfg) rest) + {#weight cfg (u, d)#}) \<in> mult {(x, y). x < y}"
      by (rule one_step_implies_mult) simp_all
    ultimately show ?thesis by simp
  next
    case False
    then have d: "d \<le> max_depth cfg" by simp
    obtain new where new:
      "queue (process_page cfg w b u d (s\<lparr>queue := rest\<rparr>)) = rest @ map (\<lambda>l. (l, d + 1)) new"
      "new \<noteq> [] \<longrightarrow> d < max_depth cfg"
      using queue_process_page [of cfg w b u d "s\<lparr>queue := rest\<rparr>"] by auto
    have step: "crawl_step cfg w b s = process_page cfg w b u d (s\<lparr>queue := rest\<rparr>)"
      using q False by (simp add: crawl_step_def)
    have "queue_weights cfg (crawl_step cfg w b s) =
        mset (map (weight cfg) rest) + mset (map (\<lambda>l. weight cfg (l, d + 1)) new)"
      by (simp add: step queue_weights_def new(1) comp_def)
    moreover have "queue_weights cfg s = mset (map (weight cfg) rest) + {#weight cfg (u, d)#}"
      using q by (simp add: queue_weights_def)
    moreover have "(mset (map (weight cfg) rest) + mset (map (\<lambda>l. weight cfg (l, d + 1)) new),
        mset (map (weight cfg) rest) + {#weight cfg (u, d)#}) \<in> mult {(x, y). x < y}"
    proof (rule one_step_implies_mult)
      show "{#weight cfg (u, d)#} \<noteq> {#}" by simp
      show "\<forall>k\<in>#mset (map (\<lambda>l. weight cfg (l, d + 1)) new).
          \<exists>j\<in>#{#weight cfg (u, d)#}. (k, j) \<in> {(x, y). x < y}"
        using d by (auto simp: weight_def)
    qed
    ultimately show ?thesis by simp
  qed
qed

text \<open>
  The \<open>while queue\<close> loop. It is a total function: the crawl ends on every site, finite
  or not, because a page answers with finitely many links and no entry is deeper than
  one level past the cutoff.
\<close>

function crawl_loop :: "scraper \<Rightarrow> web \<Rightarrow> str \<Rightarrow> crawl \<Rightarrow> crawl" where
  "crawl_loop cfg w base_url s =
     (if queue s = [] then s else crawl_loop cfg w base_url (crawl_step cfg w base_url s))"
  by pat_completeness auto
termination
proof (relation "inv_image (mult {(x, y). x < y}) (\<lambda>(cfg, w, b, s). queue_weights cfg s)")
  show "wf (inv_image (mult {(x::nat, y). x < y}) (\<lambda>(cfg, w, b, s). queue_weights cfg s))"
    using wf_less by (intro wf_inv_image wf_mult) (simp add: less_than_def [symmetric])
next
  fix cfg :: scraper and w :: web and base_url :: str and s :: crawl
  assume "queue s \<noteq> []"
  then show "((cfg, w, base_url, crawl_step cfg w base_url s), cfg, w, base_url, s)
      \<in> inv_image (mult {(x, y). x < y}) (\<lambda>(cfg, w, b, s). queue_weights cfg s)"
    by (simp add: crawl_step_decreases)
qed

declare crawl_loop.simps [simp del]

definition final_crawl :: "scraper \<Rightarrow> web \<Rightarrow> str \<Rightarrow> crawl" where
  "final_crawl cfg w base_url = crawl_loop cfg w base_url (initial_crawl base_url)"

definition discover_pdf_links :: "scraper \<Rightarrow> web \<Rightarrow> str \<Rightarrow> str list" where
  "discover_pdf_links cfg w base_url =
     slice_to (num_pdfs cfg) (pdf_links (final_crawl cfg w base_url))"

section \<open>What the crawl requests, and in which order\<close>

text \<open>
  These are not code of the scraper but the words of the properties: a list with every
  element kept at its first occurrence only; the pages on which \<open>_extract_pdf_links\<close>
  was called and the pages that were expanded, each with its depth, in the order of the
  calls; and all PDF links the calls returned, in the order in which the loop met them.
\<close>

fun first_occ :: "'a list \<Rightarrow> 'a list" where
  "first_occ [] = []"
| "first_occ (x # xs) = x # first_occ (removeAll x xs)"

definition processed :: "event list \<Rightarrow> (str \<times> int) list" where
  "processed t = map (\<lambda>e. (event_url e, event_depth e)) (filter is_extraction t)"

definition expanded :: "event list \<Rightarrow> (str \<times> int) list" where
  "expanded t = map (\<lambda>e. (event_url e, event_depth e)) (filter is_expansion t)"

definition sightings :: "event list \<Rightarrow> str list" where
  "sightings t = concat (map sighted t)"

lemma crawl_loop_invariant:
  "P s \<Longrightarrow> (\<And>t. P t \<Longrightarrow> queue t \<noteq> [] \<Longrightarrow> P (crawl_step cfg w b t)) \<Longrightarrow> P (crawl_loop cfg w b s)"
proof (induction cfg w b s rule: crawl_loop.induct)
  case (1 cfg w b s)
  show ?case
  proof (cases "queue s = []")
    case True
    with 1(2) show ?thesis by (simp add: crawl_loop.simps)
  next
    case False
    then have "P (crawl_step cfg w b s)" using 1(2,3) by blast
    then have "P (crawl_loop cfg w b (crawl_step cfg w b s))"
      using 1(1) [OF False] 1(3) by blast
    then show ?thesis using False by (simp add: crawl_loop.simps)
  qed
qed

lemma set_first_occ: "set (first_occ xs) = set xs"
  by (induction xs rule: first_occ.induct) auto

lemma distinct_first_occ: "distinct (first_occ xs)"
  by (induction xs rule: first_occ.induct) (auto simp: set_first_occ)

lemma first_occ_snoc:
  "first_occ (xs @ [y]) = (if y \<in> set xs then first_occ xs else first_occ xs @ [y])"
  by (induction xs rule: first_occ.induct) auto

lemma add_pdf_link_fields:
  "visited (add_pdf_link s l) = visited s" "trace (add_pdf_link s l) = trace s"
  by (simp_all add: add_pdf_link_def)

lemma foldl_add_fields:
  "visited (foldl add_pdf_link s ls) = visited s" "trace (foldl add_pdf_link s ls) = trace s"
  by (induction ls arbitrary: s) (simp_all add: add_pdf_link_fields)

lemma add_pdf_link_first_occ:
  assumes "pdf_links s = first_occ xs" "seen_pdfs s = set xs"
  shows "pdf_links (add_pdf_link s l) = first_occ (xs @ [l])
    \<and> seen_pdfs (add_pdf_link s l) = set (xs @ [l])"
  using assms by (auto simp: add_pdf_link_def first_occ_snoc)

lemma foldl_add_first_occ:
  "pdf_links s = first_occ xs \<Longrightarrow> seen_pdfs s = set xs \<Longrightarrow>
   pdf_links (foldl add_pdf_link s ls) = first_occ (xs @ ls)
    \<and> seen_pdfs (foldl add_pdf_link s ls) = set (xs @ ls)"
proof (induction ls arbitrary: s xs)
  case Nil
  then show ?case by simp
next
  case (Cons l ls)
  from add_pdf_link_first_occ [OF Cons.prems, of l]
  have "pdf_links (foldl add_pdf_link (add_pdf_link s l) ls) = first_occ ((xs @ [l]) @ ls)
    \<and> seen_pdfs (foldl add_pdf_link (add_pdf_link s l) ls) = set ((xs @ [l]) @ ls)"
    by (intro Cons.IH) simp_all
  then show ?case by simp
qed

lemma process_page_visited: "visited (process_page cfg w b u d s) = insert u (visited s)"
  by (simp add: process_page_def Let_def expand_links_def foldl_add_fields)

lemma process_page_trace:
  "trace (process_page cfg w b u d s) =
     trace s @ Extracted u d (extract_pdf_links w (trace s) u) #
       (if d < max_depth cfg
        then [Expanded u d (page_links w (trace s @ [Extracted u d (extract_pdf_links w (trace s) u)]) u)]
        else [])"
  by (simp add: process_page_def Let_def expand_links_def foldl_add_fields)

lemma process_page_pdf_links:
  assumes "pdf_links s = first_occ xs" "seen_pdfs s = set xs"
  shows "pdf_links (process_page cfg w b u d s) = first_occ (xs @ extract_pdf_links w (trace s) u)
    \<and> seen_pdfs (process_page cfg w b u d s) = set (xs @ extract_pdf_links w (trace s) u)"
proof -
  let ?f = "extract_pdf_links w (trace s) u"
  let ?s1 = "s\<lparr>visited := insert u (visited s), trace := trace s @ [Extracted u d ?f]\<rparr>"
  have "pdf_links (foldl add_pdf_link ?s1 ?f) = first_occ (xs @ ?f)
    \<and> seen_pdfs (foldl add_pdf_link ?s1 ?f) = set (xs @ ?f)"
    by (rule foldl_add_first_occ) (simp_all add: assms)
  then show ?thesis
    by (simp add: process_page_def Let_def expand_links_def)
qed

text \<open>What one turn of the loop does to each variable.\<close>

lemma crawl_step_skip:
  "queue s = (u, d) # rest \<Longrightarrow> u \<in> visited s \<or> max_depth cfg < d \<Longrightarrow>
   crawl_step cfg w b s = s\<lparr>queue := rest\<rparr>"
  by (simp add: crawl_step_def)

lemma crawl_step_page:
  "queue s = (u, d) # rest \<Longrightarrow> u \<notin> visited s \<Longrightarrow> d \<le> max_depth cfg \<Longrightarrow>
   crawl_step cfg w b s = process_page cfg w b u d (s\<lparr>queue := rest\<rparr>)"
  by (simp add: crawl_step_def)


subsection \<open>Depth\<close>

lemma depth_invariant:
  "\<forall>e\<in>set (trace (final_crawl cfg w b)).
     event_depth e \<le> max_depth cfg \<and> (is_expansion e \<longrightarrow> event_depth e < max_depth cfg)"
  unfolding final_crawl_def
proof (rule crawl_loop_invariant)
  show "\<forall>e\<in>set (trace (initial_crawl b)).
     event_depth e \<le> max_depth cfg \<and> (is_expansion e \<longrightarrow> event_depth e < max_depth cfg)"
    by (simp add: initial_crawl_def)
next
  fix t :: crawl
  assume inv: "\<forall>e\<in>set (trace t).
     event_depth e \<le> max_depth cfg \<and> (is_expansion e \<longrightarrow> event_depth e < max_depth cfg)"
    and "queue t \<noteq> []"
  then obtain u d rest where q: "queue t = (u, d) # rest"
    by (cases "queue t") auto
  show "\<forall>e\<in>set (trace (crawl_step cfg w b t)).
     event_depth e \<le> max_depth cfg \<and> (is_expansion e \<longrightarrow> event_depth e < max_depth cfg)"
  proof (cases "u \<in> visited t \<or> max_depth cfg < d")
    case True
    then show ?thesis using inv by (simp add: crawl_step_skip [OF q])
  next
    case False
    then have "crawl_step cfg w b t = process_page cfg w b u d (t\<lparr>queue := rest\<rparr>)"
      using q by (simp add: crawl_step_page)
    then show ?thesis using inv False by (auto simp: process_page_trace)
  qed
qed

lemma crawl_step_enqueues:
  assumes "queue s = (u, d) # rest"
  shows "\<exists>new. queue (crawl_step cfg w b s) = rest @ map (\<lambda>l. (l, d + 1)) new
     \<and> (new \<noteq> [] \<longrightarrow> d < max_depth cfg \<and> u \<notin> visited s)"
proof (cases "u \<in> visited s \<or> max_depth cfg < d")
  case True
  then have "queue (crawl_step cfg w b s) = rest @ map (\<lambda>l. (l, d + 1)) []"
    using assms by (simp add: crawl_step_skip)
  then show ?thesis by blast
next
  case False
  then have "crawl_step cfg w b s = process_page cfg w b u d (s\<lparr>queue := rest\<rparr>)"
    using assms by (simp add: crawl_step_page)
  then show ?thesis
    using queue_process_page [of cfg w b u d "s\<lparr>queue := rest\<rparr>"] False by auto
qed

subsection \<open>Visited pages\<close>

definition requested_once :: "crawl \<Rightarrow> bool" where
  "requested_once s \<longleftrightarrow>
     distinct (map fst (processed (trace s))) \<and> distinct (map fst (expanded (trace s)))
     \<and> event_url ` set (trace s) \<subseteq> visited s"

lemma fst_processed: "map fst (processed t) = map event_url (filter is_extraction t)"
  by (simp add: processed_def comp_def)

lemma fst_expanded: "map fst (expanded t) = map event_url (filter is_expansion t)"
  by (simp add: expanded_def comp_def)

lemma requested_once_step:
  assumes inv: "requested_once t" and ne: "queue t \<noteq> []"
  shows "requested_once (crawl_step cfg w b t)"
proof -
  obtain u d rest where q: "queue t = (u, d) # rest"
    using ne by (cases "queue t") auto
  show ?thesis
  proof (cases "u \<in> visited t \<or> max_depth cfg < d")
    case True
    then show ?thesis using inv by (simp add: crawl_step_skip [OF q] requested_once_def)
  next
    case False
    then have st: "crawl_step cfg w b t = process_page cfg w b u d (t\<lparr>queue := rest\<rparr>)"
      using q by (simp add: crawl_step_page)
    have new: "u \<notin> event_url ` set (trace t)"
      using inv False by (auto simp: requested_once_def)
    then have "u \<notin> set (map event_url (filter is_extraction (trace t)))"
      and "u \<notin> set (map event_url (filter is_expansion (trace t)))"
      by auto
    moreover have "distinct (map event_url (filter is_extraction (trace t)))"
      and "distinct (map event_url (filter is_expansion (trace t)))"
      and "event_url ` set (trace t) \<subseteq> visited t"
      using inv by (simp_all add: requested_once_def fst_processed fst_expanded)
    ultimately show ?thesis
      unfolding requested_once_def fst_processed fst_expanded st process_page_trace
        process_page_visited
      by (cases "d < max_depth cfg") auto
  qed
qed

lemma requested_once_final: "requested_once (final_crawl cfg w b)"
  unfolding final_crawl_def
proof (rule crawl_loop_invariant)
  show "requested_once (initial_crawl b)"
    by (simp add: requested_once_def initial_crawl_def processed_def expanded_def)
qed (rule requested_once_step)


subsection \<open>Breadth first\<close>

definition level_order :: "crawl \<Rightarrow> bool" where
  "level_order s \<longleftrightarrow>
     sorted (map event_depth (trace s) @ map snd (queue s))
     \<and> (\<forall>x\<in>set (queue s). \<forall>y\<in>set (queue s). snd x \<le> snd y + 1)"

lemma sorted_map_const: "sorted (map (\<lambda>x. c) xs)"
  by (induction xs) simp_all

lemma level_order_step:
  assumes inv: "level_order t" and ne: "queue t \<noteq> []"
  shows "level_order (crawl_step cfg w b t)"
proof -
  obtain u d rest where q: "queue t = (u, d) # rest"
    using ne by (cases "queue t") auto
  from inv q have srt: "sorted (map event_depth (trace t) @ d # map snd rest)"
    and near: "\<forall>x\<in>set rest. snd x \<le> d + 1"
    and gap: "\<forall>x\<in>set rest. \<forall>y\<in>set rest. snd x \<le> snd y + 1"
    by (simp_all add: level_order_def)
  from srt have before: "\<forall>x\<in>set (trace t). event_depth x \<le> d"
    and after: "\<forall>y\<in>set rest. d \<le> snd y"
    and s1: "sorted (map event_depth (trace t))" and s2: "sorted (map snd rest)"
    and cross: "\<forall>x\<in>set (trace t). \<forall>y\<in>set rest. event_depth x \<le> snd y"
    by (auto simp: sorted_append)
  show ?thesis
  proof (cases "u \<in> visited t \<or> max_depth cfg < d")
    case True
    then show ?thesis
      using s1 s2 cross gap by (auto simp: crawl_step_skip [OF q] level_order_def sorted_append)
  next
    case False
    then have st: "crawl_step cfg w b t = process_page cfg w b u d (t\<lparr>queue := rest\<rparr>)"
      using q by (simp add: crawl_step_page)
    obtain new where new:
      "queue (process_page cfg w b u d (t\<lparr>queue := rest\<rparr>)) = rest @ map (\<lambda>l. (l, d + 1)) new"
      using queue_process_page [of cfg w b u d "t\<lparr>queue := rest\<rparr>"] by auto
    have "sorted (map event_depth (trace (process_page cfg w b u d (t\<lparr>queue := rest\<rparr>)))
        @ map snd (rest @ map (\<lambda>l. (l, d + 1)) new))"
      using s1 s2 cross before after near
      by (cases "d < max_depth cfg")
        (auto simp: process_page_trace sorted_append comp_def sorted_map_const intro: order_trans)
    moreover have "\<forall>x\<in>set (rest @ map (\<lambda>l. (l, d + 1)) new).
        \<forall>y\<in>set (rest @ map (\<lambda>l. (l, d + 1)) new). snd x \<le> snd y + 1"
      using gap near after by auto
    ultimately show ?thesis by (simp add: st level_order_def new)
  qed
qed

lemma level_order_final: "level_order (final_crawl cfg w b)"
  unfolding final_crawl_def
proof (rule crawl_loop_invariant)
  show "level_order (initial_crawl b)"
    by (simp add: level_order_def initial_crawl_def)
qed (rule level_order_step)

lemma processed_sorted: "sorted (map snd (processed (trace (final_crawl cfg w b))))"
proof -
  have "sorted (map event_depth (trace (final_crawl cfg w b)))"
    using level_order_final [of cfg w b] by (simp add: level_order_def sorted_append)
  then have "sorted (map event_depth (filter is_extraction (trace (final_crawl cfg w b))))"
    by (rule sorted_filter)
  then show ?thesis by (simp add: processed_def comp_def)
qed

subsection \<open>Order of discovery\<close>

definition discovery_order :: "crawl \<Rightarrow> bool" where
  "discovery_order s \<longleftrightarrow>
     pdf_links s = first_occ (sightings (trace s)) \<and> seen_pdfs s = set (sightings (trace s))"

lemma discovery_order_step:
  assumes inv: "discovery_order t" and ne: "queue t \<noteq> []"
  shows "discovery_order (crawl_step cfg w b t)"
proof -
  obtain u d rest where q: "queue t = (u, d) # rest"
    using ne by (cases "queue t") auto
  show ?thesis
  proof (cases "u \<in> visited t \<or> max_depth cfg < d")
    case True
    then show ?thesis using inv by (simp add: crawl_step_skip [OF q] discovery_order_def)
  next
    case False
    then have st: "crawl_step cfg w b t = process_page cfg w b u d (t\<lparr>queue := rest\<rparr>)"
      using q by (simp add: crawl_step_page)
    let ?t = "t\<lparr>queue := rest\<rparr>"
    have "pdf_links ?t = first_occ (sightings (trace t))" "seen_pdfs ?t = set (sightings (trace t))"
      using inv by (simp_all add: discovery_order_def)
    from process_page_pdf_links [OF this, of cfg w b u d]
    show ?thesis
      by (simp add: st discovery_order_def process_page_trace sightings_def)
  qed
qed

lemma discovery_order_final: "discovery_order (final_crawl cfg w b)"
  unfolding final_crawl_def
proof (rule crawl_loop_invariant)
  show "discovery_order (initial_crawl b)"
    by (simp add: discovery_order_def initial_crawl_def sightings_def)
qed (rule discovery_order_step)

lemma length_slice_to: "0 \<le> n \<Longrightarrow> length (slice_to n xs) \<le> nat n"
  by (simp add: slice_to_def)

lemma slice_to_prefix: "prefix (slice_to n xs) xs"
  by (simp add: slice_to_def take_is_prefix)

section \<open>A small site\<close>

text \<open>
  The home page links twice to page \<open>a\<close>, once to another host and once to itself; page
  \<open>a\<close> links to page \<open>b\<close>. Each page shows PDF links, one of them on two pages.
\<close>

definition site_home :: str where "site_home = ustr ''http://n/''"
definition site_a :: str where "site_a = ustr ''http://n/a''"
definition site_b :: str where "site_b = ustr ''http://n/b''"
definition site_other :: str where "site_other = ustr ''http://o/''"
definition pdf1 :: str where "pdf1 = ustr ''http://n/1.pdf''"
definition pdf2 :: str where "pdf2 = ustr ''http://n/2.pdf''"
definition pdf3 :: str where "pdf3 = ustr ''http://n/3.pdf''"
definition pdf4 :: str where "pdf4 = ustr ''http://n/4.pdf''"

definition small_site :: web where
  "small_site =
     \<lparr>extract_pdf_links = (\<lambda>h u.
         if u = site_home then [pdf1, pdf2]
         else if u = site_a then [pdf2, pdf3]
         else if u = site_b then [pdf4] else []),
      page_links = (\<lambda>h u.
         if u = site_home then [site_a, site_other, site_a, site_home]
         else if u = site_a then [site_b, site_home] else [])\<rparr>"

definition small_cfg :: scraper where
  "small_cfg = \<lparr>max_depth = 1, num_pdfs = 2, workers = 4, timeout = 10\<rparr>"

definition negative_cfg :: scraper where
  "negative_cfg = \<lparr>max_depth = 1, num_pdfs = - 1, workers = 4, timeout = 10\<rparr>"

definition deep_entry :: crawl where
  "deep_entry = \<lparr>visited = {}, pdf_links = [], seen_pdfs = {}, queue = [(site_b, 2)], trace = []\<rparr>"

definition second_entry :: crawl where
  "second_entry =
     \<lparr>visited = {site_home, site_a}, pdf_links = [], seen_pdfs = {}, queue = [(site_a, 1)],
      trace = []\<rparr>"

lemma small_site_trace:
  "trace (final_crawl small_cfg small_site site_home) =
     [Extracted site_home 0 [pdf1, pdf2],
      Expanded site_home 0 [site_a, site_other, site_a, site_home],
      Extracted site_a 1 [pdf2, pdf3]]"
  by code_simp

lemma small_site_first_turn:
  "queue (crawl_step small_cfg small_site site_home (initial_crawl site_home)) =
     [(site_a, 1), (site_a, 1)]"
  by code_simp

lemma small_site_links:
  "pdf_links (final_crawl small_cfg small_site site_home) = [pdf1, pdf2, pdf3]"
  by code_simp

lemma small_site_links_negative:
  "pdf_links (final_crawl negative_cfg small_site site_home) = [pdf1, pdf2, pdf3]"
  by code_simp

section \<open>The claims about the crawler\<close>

text \<open>
  C1 (depth cutoff). Every request of a crawl, for extracting PDF links or for expanding
  links, is for a page whose depth is at most \<open>max_depth\<close>, and a page is expanded only
  when its depth is below \<open>max_depth\<close>. A pair taken from the queue with a depth above
  \<open>max_depth\<close> is skipped: the turn only removes it. Whatever a turn appends to the queue
  has depth \<open>depth + 1\<close>, and it appends something only when \<open>depth < max_depth\<close>. This
  holds for every \<open>max_depth\<close>, so for every \<open>max_depth \<ge> 0\<close>.
\<close>

theorem depth_cutoff:
  "(\<forall>e\<in>set (trace (final_crawl cfg w base_url)).
      event_depth e \<le> max_depth cfg \<and> (is_expansion e \<longrightarrow> event_depth e < max_depth cfg))
   \<and> (queue s = (url, depth) # rest \<and> max_depth cfg < depth \<longrightarrow>
        crawl_step cfg w base_url s = s\<lparr>queue := rest\<rparr>)
   \<and> (queue s = (url, depth) # rest \<longrightarrow>
        (\<exists>new. queue (crawl_step cfg w base_url s) = rest @ map (\<lambda>link. (link, depth + 1)) new
           \<and> (new \<noteq> [] \<longrightarrow> depth < max_depth cfg)))"
  using depth_invariant [of cfg w base_url] crawl_step_skip [of s url depth rest cfg w base_url]
    crawl_step_enqueues [of s url depth rest cfg w base_url]
  by blast

theorem depth_cutoff_witness:
  "Extracted site_a 1 [pdf2, pdf3] \<in> set (trace (final_crawl small_cfg small_site site_home))
   \<and> event_depth (Extracted site_a 1 [pdf2, pdf3]) \<le> max_depth small_cfg
   \<and> Expanded site_home 0 [site_a, site_other, site_a, site_home]
        \<in> set (trace (final_crawl small_cfg small_site site_home))
   \<and> event_depth (Expanded site_home 0 [site_a, site_other, site_a, site_home]) < max_depth small_cfg
   \<and> queue deep_entry = [(site_b, 2)] \<and> max_depth small_cfg < 2
   \<and> crawl_step small_cfg small_site site_home deep_entry = deep_entry\<lparr>queue := []\<rparr>
   \<and> queue (initial_crawl site_home) = [(site_home, 0)]
   \<and> queue (crawl_step small_cfg small_site site_home (initial_crawl site_home)) =
        [] @ map (\<lambda>link. (link, 0 + 1)) [site_a, site_a]
   \<and> 0 < max_depth small_cfg"
proof -
  have q: "queue deep_entry = [(site_b, 2)]" "max_depth small_cfg < 2"
    "queue (initial_crawl site_home) = [(site_home, 0)]" "0 < max_depth small_cfg"
    by (simp_all add: deep_entry_def small_cfg_def initial_crawl_def)
  from depth_cutoff [where cfg = small_cfg and w = small_site and base_url = site_home
      and s = deep_entry and url = site_b and depth = 2 and rest = "[]"]
  show ?thesis
    using q by (simp add: small_site_trace small_site_first_turn)
qed

lemma small_cfg_fields: "max_depth small_cfg = 1" "num_pdfs small_cfg = 2"
  by (simp_all add: small_cfg_def)

lemma negative_cfg_fields: "max_depth negative_cfg = 1" "num_pdfs negative_cfg = - 1"
  by (simp_all add: negative_cfg_def)

lemma small_site_trace_negative:
  "trace (final_crawl negative_cfg small_site site_home) =
     [Extracted site_home 0 [pdf1, pdf2],
      Expanded site_home 0 [site_a, site_other, site_a, site_home],
      Extracted site_a 1 [pdf2, pdf3]]"
  by code_simp

lemma pdfs_differ: "pdf1 \<noteq> pdf2" "pdf1 \<noteq> pdf3" "pdf2 \<noteq> pdf3"
  by (simp_all add: pdf1_def pdf2_def pdf3_def ustr_def)

text \<open>
  C2 (link-count bound), as amended: when \<open>num_pdfs\<close> is not negative, the list that
  \<open>_discover_pdf_links\<close> returns has at most \<open>num_pdfs\<close> elements.
\<close>

theorem link_count_bound:
  "0 \<le> num_pdfs cfg \<Longrightarrow> int (length (discover_pdf_links cfg w base_url)) \<le> num_pdfs cfg"
  using length_slice_to [of "num_pdfs cfg" "pdf_links (final_crawl cfg w base_url)"]
  by (simp add: discover_pdf_links_def)

theorem link_count_bound_witness:
  "0 \<le> num_pdfs small_cfg
   \<and> discover_pdf_links small_cfg small_site site_home = [pdf1, pdf2]
   \<and> int (length (discover_pdf_links small_cfg small_site site_home)) \<le> num_pdfs small_cfg"
proof -
  have n: "0 \<le> num_pdfs small_cfg" by (simp add: small_cfg_fields)
  have "discover_pdf_links small_cfg small_site site_home = [pdf1, pdf2]"
    by (simp add: discover_pdf_links_def small_site_links slice_to_def small_cfg_fields)
  with n link_count_bound [OF n, of small_site site_home] show ?thesis by simp
qed

text \<open>
  The bound fails for a negative \<open>num_pdfs\<close>: \<open>pdf_links[:-1]\<close> drops the last link only,
  so three links found give two links returned, more than \<open>-1\<close>.
\<close>

theorem link_count_negative_counterexample:
  "discover_pdf_links negative_cfg small_site site_home = [pdf1, pdf2]
   \<and> \<not> int (length (discover_pdf_links negative_cfg small_site site_home)) \<le> num_pdfs negative_cfg"
  by (simp add: discover_pdf_links_def small_site_links_negative slice_to_def negative_cfg_fields)

text \<open>
  C3 (visited set). Within one crawl no page is requested twice, neither for extracting
  PDF links nor for expanding links, whatever the site answers and however often the
  page was put in the queue; a pair taken from the queue whose page is in \<open>visited\<close> is
  skipped: the turn only removes it.
\<close>

theorem visited_once:
  "distinct (map fst (processed (trace (final_crawl cfg w base_url))))
   \<and> distinct (map fst (expanded (trace (final_crawl cfg w base_url))))
   \<and> (queue s = (url, depth) # rest \<and> url \<in> visited s \<longrightarrow>
        crawl_step cfg w base_url s = s\<lparr>queue := rest\<rparr>)"
  using requested_once_final [of cfg w base_url] crawl_step_skip [of s url depth rest cfg w base_url]
  by (simp add: requested_once_def)

theorem visited_once_witness:
  "queue (crawl_step small_cfg small_site site_home (initial_crawl site_home)) =
     [(site_a, 1), (site_a, 1)]
   \<and> processed (trace (final_crawl small_cfg small_site site_home)) = [(site_home, 0), (site_a, 1)]
   \<and> distinct (map fst (processed (trace (final_crawl small_cfg small_site site_home))))
   \<and> queue second_entry = [(site_a, 1)] \<and> site_a \<in> visited second_entry
   \<and> crawl_step small_cfg small_site site_home second_entry = second_entry\<lparr>queue := []\<rparr>"
proof -
  have q: "queue second_entry = [(site_a, 1)]" "site_a \<in> visited second_entry"
    by (simp_all add: second_entry_def)
  have p: "processed (trace (final_crawl small_cfg small_site site_home)) =
      [(site_home, 0), (site_a, 1)]"
    by (simp add: small_site_trace processed_def)
  from visited_once [where cfg = small_cfg and w = small_site and base_url = site_home
      and s = second_entry and url = site_a and depth = 1 and rest = "[]"]
  show ?thesis using q p by (simp add: small_site_first_turn)
qed

text \<open>
  C4 (breadth-first order). The depths of the pages a crawl processes, in the order in
  which it processes them, never fall: a page processed later is at least as deep.
\<close>

theorem breadth_first_order:
  "sorted (map snd (processed (trace (final_crawl cfg w base_url))))
   \<and> (\<forall>i j. i < j \<and> j < length (processed (trace (final_crawl cfg w base_url))) \<longrightarrow>
         snd (processed (trace (final_crawl cfg w base_url)) ! i)
           \<le> snd (processed (trace (final_crawl cfg w base_url)) ! j))"
proof -
  let ?p = "processed (trace (final_crawl cfg w base_url))"
  have s: "sorted (map snd ?p)" by (rule processed_sorted)
  have "snd (?p ! i) \<le> snd (?p ! j)" if "i < j" "j < length ?p" for i j
    using sorted_nth_mono [OF s, of i j] that by simp
  with s show ?thesis by blast
qed

theorem breadth_first_order_witness:
  "processed (trace (final_crawl small_cfg small_site site_home)) = [(site_home, 0), (site_a, 1)]
   \<and> (0::nat) < 1 \<and> 1 < length (processed (trace (final_crawl small_cfg small_site site_home)))
   \<and> snd (processed (trace (final_crawl small_cfg small_site site_home)) ! 0)
       \<le> snd (processed (trace (final_crawl small_cfg small_site site_home)) ! 1)"
proof -
  have p: "processed (trace (final_crawl small_cfg small_site site_home)) =
      [(site_home, 0), (site_a, 1)]"
    by (simp add: small_site_trace processed_def)
  from breadth_first_order [of small_cfg small_site site_home]
  show ?thesis using p by simp
qed

text \<open>
  C10 (no duplicates, order of first discovery), as amended. The returned list has no
  duplicates. The links the crawl collects are the PDF links it sighted, each at the place
  of its first sighting, and the returned list is a prefix of them: the first \<open>num_pdfs\<close>
  of them when \<open>num_pdfs\<close> is not negative, and all but the last \<open>- num_pdfs\<close> of them
  when it is negative.
\<close>

theorem discovery_order_result:
  "distinct (discover_pdf_links cfg w base_url)
   \<and> pdf_links (final_crawl cfg w base_url) = first_occ (sightings (trace (final_crawl cfg w base_url)))
   \<and> prefix (discover_pdf_links cfg w base_url)
        (first_occ (sightings (trace (final_crawl cfg w base_url))))
   \<and> (0 \<le> num_pdfs cfg \<longrightarrow>
        discover_pdf_links cfg w base_url =
          take (nat (num_pdfs cfg)) (first_occ (sightings (trace (final_crawl cfg w base_url)))))
   \<and> (num_pdfs cfg < 0 \<longrightarrow>
        discover_pdf_links cfg w base_url =
          take (length (first_occ (sightings (trace (final_crawl cfg w base_url)))) - nat (- num_pdfs cfg))
            (first_occ (sightings (trace (final_crawl cfg w base_url)))))"
proof -
  let ?all = "first_occ (sightings (trace (final_crawl cfg w base_url)))"
  have eq: "pdf_links (final_crawl cfg w base_url) = ?all"
    using discovery_order_final [of cfg w base_url] by (simp add: discovery_order_def)
  have pre: "prefix (discover_pdf_links cfg w base_url) ?all"
    by (simp add: discover_pdf_links_def eq slice_to_prefix)
  then have "distinct (discover_pdf_links cfg w base_url)"
    using distinct_first_occ [of "sightings (trace (final_crawl cfg w base_url))"]
    by (auto simp: prefix_def)
  with eq pre show ?thesis
    by (simp add: discover_pdf_links_def slice_to_def)
qed

theorem discovery_order_result_witness:
  "sightings (trace (final_crawl small_cfg small_site site_home)) = [pdf1, pdf2, pdf2, pdf3]
   \<and> 0 \<le> num_pdfs small_cfg
   \<and> discover_pdf_links small_cfg small_site site_home = [pdf1, pdf2]
   \<and> take (nat (num_pdfs small_cfg))
        (first_occ (sightings (trace (final_crawl small_cfg small_site site_home)))) = [pdf1, pdf2]
   \<and> num_pdfs negative_cfg < 0
   \<and> discover_pdf_links negative_cfg small_site site_home = [pdf1, pdf2]"
proof -
  have s: "sightings (trace (final_crawl small_cfg small_site site_home)) = [pdf1, pdf2, pdf2, pdf3]"
    "sightings (trace (final_crawl negative_cfg small_site site_home)) = [pdf1, pdf2, pdf2, pdf3]"
    by (simp_all add: small_site_trace small_site_trace_negative sightings_def)
  have f: "first_occ [pdf1, pdf2, pdf2, pdf3] = [pdf1, pdf2, pdf3]"
    using pdfs_differ by simp
  from discovery_order_result [of small_cfg small_site site_home]
    discovery_order_result [of negative_cfg small_site site_home]
  show ?thesis
    by (simp add: s f pdfs_differ small_cfg_fields negative_cfg_fields)
qed

text \<open>
  With \<open>num_pdfs = -1\<close> the result is not the first \<open>num_pdfs\<close> links: of the three
  links found, two are returned.
\<close>

theorem first_num_pdfs_counterexample:
  "num_pdfs negative_cfg = - 1
   \<and> first_occ (sightings (trace (final_crawl negative_cfg small_site site_home))) = [pdf1, pdf2, pdf3]
   \<and> discover_pdf_links negative_cfg small_site site_home = [pdf1, pdf2]
   \<and> discover_pdf_links negative_cfg small_site site_home \<noteq>
       take (nat (num_pdfs negative_cfg))
         (first_occ (sightings (trace (final_crawl negative_cfg small_site site_home))))"
proof -
  have "sightings (trace (final_crawl negative_cfg small_site site_home)) = [pdf1, pdf2, pdf2, pdf3]"
    by (simp add: small_site_trace_negative sightings_def)
  moreover have "first_occ [pdf1, pdf2, pdf2, pdf3] = [pdf1, pdf2, pdf3]"
    using pdfs_differ by simp
  ultimately show ?thesis
    by (simp add: discover_pdf_links_def small_site_links_negative slice_to_def negative_cfg_fields)
qed

section \<open>Character classes\<close>

text \<open>
  \<open>str.strip\<close>, \<open>str.split\<close>, \<open>str.isupper\<close> and the class \<open>\w\<close> of \<open>re\<close> read Python's
  Unicode character database. For the ASCII code points the classes are written out; for
  the others they are a parameter, so that what is proved holds for every such table.
\<close>

record ucd =
  uc_space :: "nat \<Rightarrow> bool"
  uc_word :: "nat \<Rightarrow> bool"
  uc_upper :: "nat \<Rightarrow> bool"
  uc_lower :: "nat \<Rightarrow> bool"
  uc_title :: "nat \<Rightarrow> bool"

definition isspace :: "ucd \<Rightarrow> nat \<Rightarrow> bool" where
  "isspace uc c =
     (if c < 128 then (9 \<le> c \<and> c \<le> 13) \<or> (28 \<le> c \<and> c \<le> 32) else uc_space uc c)"

definition isword :: "ucd \<Rightarrow> nat \<Rightarrow> bool" where
  "isword uc c =
     (if c < 128
      then (48 \<le> c \<and> c \<le> 57) \<or> (65 \<le> c \<and> c \<le> 90) \<or> c = 95 \<or> (97 \<le> c \<and> c \<le> 122)
      else uc_word uc c)"

definition isupper_char :: "ucd \<Rightarrow> nat \<Rightarrow> bool" where
  "isupper_char uc c = (if c < 128 then 65 \<le> c \<and> c \<le> 90 else uc_upper uc c)"

definition islower_char :: "ucd \<Rightarrow> nat \<Rightarrow> bool" where
  "islower_char uc c = (if c < 128 then 97 \<le> c \<and> c \<le> 122 else uc_lower uc c)"

definition istitle_char :: "ucd \<Rightarrow> nat \<Rightarrow> bool" where
  "istitle_char uc c = (if c < 128 then False else uc_title uc c)"

text \<open>
  \<open>str.isupper\<close>: no character is lowercase or titlecase and at least one is uppercase.
\<close>

definition isupper :: "ucd \<Rightarrow> str \<Rightarrow> bool" where
  "isupper uc s =
     (list_all (\<lambda>c. \<not> islower_char uc c \<and> \<not> istitle_char uc c) s
      \<and> list_ex (isupper_char uc) s)"

definition strip :: "ucd \<Rightarrow> str \<Rightarrow> str" where
  "strip uc s = rev (dropWhile (isspace uc) (rev (dropWhile (isspace uc) s)))"

text \<open>
  \<open>str.split()\<close> with no argument: the maximal runs of characters that are not
  whitespace, in order. \<open>cur\<close> is the word being read.
\<close>

fun split_acc :: "ucd \<Rightarrow> str \<Rightarrow> str \<Rightarrow> str list" where
  "split_acc uc cur [] = (if cur = [] then [] else [cur])"
| "split_acc uc cur (c # cs) =
     (if isspace uc c
      then (if cur = [] then split_acc uc [] cs else cur # split_acc uc [] cs)
      else split_acc uc (cur @ [c]) cs)"

definition split :: "ucd \<Rightarrow> str \<Rightarrow> str list" where
  "split uc s = split_acc uc [] s"

text \<open>\<open>text.split(sep)\<close> for a separator of one character, and \<open>sep.join(xs)\<close>.\<close>

fun split_on :: "nat \<Rightarrow> str \<Rightarrow> str list" where
  "split_on sep [] = [[]]"
| "split_on sep (c # cs) =
     (if c = sep then [] # split_on sep cs
      else (case split_on sep cs of [] \<Rightarrow> [[c]] | piece # pieces \<Rightarrow> (c # piece) # pieces))"

fun join :: "str \<Rightarrow> str list \<Rightarrow> str" where
  "join sep [] = []"
| "join sep [x] = x"
| "join sep (x # y # ys) = x @ sep @ join sep (y # ys)"

section \<open>Text normalisation\<close>

text \<open>
  \<open>re.sub(r'(\w+)-\n(\w+)', r'\1\2', text)\<close>. \<open>hyphen_match\<close> is a match of the pattern
  starting at the head of \<open>s\<close>: the longest run of word characters, which must not be
  empty, then a hyphen (45), a line feed (10) and again a longest non-empty run of word
  characters. A shorter first run cannot match, as it is followed by a word character and
  not by the hyphen. The result is the replacement and the text after the match.
  \<open>dehyphenate\<close> scans as \<open>re.sub\<close> does: at a match it writes the replacement and goes on
  after the match, elsewhere it copies one character and goes on with the next.
\<close>

definition hyphen_match :: "ucd \<Rightarrow> str \<Rightarrow> (str \<times> str) option" where
  "hyphen_match uc s =
     (let w1 = takeWhile (isword uc) s in
      if w1 = [] then None
      else (case dropWhile (isword uc) s of
              h # n # r \<Rightarrow>
                if h = 45 \<and> n = 10 \<and> takeWhile (isword uc) r \<noteq> []
                then Some (w1 @ takeWhile (isword uc) r, dropWhile (isword uc) r)
                else None
            | _ \<Rightarrow> None))"

lemma hyphen_match_shorter:
  "hyphen_match uc s = Some (rep, rest) \<Longrightarrow> length rest < length s"
proof -
  assume m: "hyphen_match uc s = Some (rep, rest)"
  then obtain h n r where d: "dropWhile (isword uc) s = h # n # r" and r: "rest = dropWhile (isword uc) r"
    by (auto simp: hyphen_match_def Let_def split: if_splits list.splits)
  have "length rest \<le> length r" by (simp add: r length_dropWhile_le)
  moreover have "length (dropWhile (isword uc) s) \<le> length s" by (rule length_dropWhile_le)
  ultimately show ?thesis using d by simp
qed

function dehyphenate :: "ucd \<Rightarrow> str \<Rightarrow> str" where
  "dehyphenate uc [] = []"
| "dehyphenate uc (c # cs) =
     (case hyphen_match uc (c # cs) of
        Some (rep, rest) \<Rightarrow> rep @ dehyphenate uc rest
      | None \<Rightarrow> c # dehyphenate uc cs)"
  by pat_completeness auto
termination
  by (relation "measure (\<lambda>(uc, s). length s)") (auto dest: hyphen_match_shorter)

text \<open>
  \<open>re.search(r'[.!?:;"\']$', line)\<close>: \<open>$\<close> is the end of the line, or the place before a
  line feed that ends it.
\<close>

definition ends_with_punct :: "str \<Rightarrow> bool" where
  "ends_with_punct line =
     (case rev line of
        [] \<Rightarrow> False
      | c # r \<Rightarrow>
          c \<in> {46, 33, 63, 58, 59, 34, 39}
          \<or> (c = 10 \<and> (case r of [] \<Rightarrow> False | d # r' \<Rightarrow> d \<in> {46, 33, 63, 58, 59, 34, 39})))"

text \<open>The first loop of \<open>_normalize_text\<close>, over \<open>enumerate(lines)\<close>.\<close>

definition flush :: "str list \<Rightarrow> str \<Rightarrow> str list" where
  "flush normalized_lines buffer =
     (if buffer \<noteq> [] then normalized_lines @ [buffer] else normalized_lines)"

definition is_header :: "ucd \<Rightarrow> str list \<Rightarrow> nat \<Rightarrow> str \<Rightarrow> bool" where
  "is_header uc lines i line \<longleftrightarrow>
     length line < 20
     \<and> (isupper uc line
        \<or> (isupper uc (take 1 line) \<and> i > 0 \<and> strip uc (lines ! (i - 1)) = []))"

definition merge_line :: "ucd \<Rightarrow> str list \<Rightarrow> str list \<times> str \<Rightarrow> nat \<times> str \<Rightarrow> str list \<times> str" where
  "merge_line uc lines st il =
     (let normalized_lines = fst st; buffer = snd st; i = fst il; line = strip uc (snd il) in
      if line = [] then (flush normalized_lines buffer @ [[]], [])
      else if is_header uc lines i line then (flush normalized_lines buffer @ [line], [])
      else
        (let buffer' = (if buffer \<noteq> [] then buffer @ [32] @ line else line) in
         if ends_with_punct line then (normalized_lines @ [buffer'], [])
         else (normalized_lines, buffer')))"

definition merge_lines :: "ucd \<Rightarrow> str list \<Rightarrow> str list" where
  "merge_lines uc lines =
     (let st = foldl (merge_line uc lines) ([], []) (enumerate 0 lines)
      in flush (fst st) (snd st))"

text \<open>The second loop, which builds the paragraphs.\<close>

definition close_paragraph :: "str list \<Rightarrow> str list \<Rightarrow> str list" where
  "close_paragraph paragraph_chunks current_paragraph =
     (if current_paragraph \<noteq> [] then paragraph_chunks @ [join [32] current_paragraph]
      else paragraph_chunks)"

definition add_line :: "str list \<times> str list \<Rightarrow> str \<Rightarrow> str list \<times> str list" where
  "add_line st line =
     (if line = [] then (close_paragraph (fst st) (snd st), [])
      else (fst st, snd st @ [line]))"

definition paragraphs :: "str list \<Rightarrow> str list" where
  "paragraphs normalized_lines =
     (let st = foldl add_line ([], []) normalized_lines in close_paragraph (fst st) (snd st))"

text \<open>\<open>re.sub(r' +', ' ', result)\<close> and \<open>re.sub(r'\n{3,}', '\n\n', result)\<close>.\<close>

function collapse_spaces :: "str \<Rightarrow> str" where
  "collapse_spaces [] = []"
| "collapse_spaces (c # cs) =
     (if c = 32 then 32 # collapse_spaces (dropWhile (\<lambda>x. x = 32) cs)
      else c # collapse_spaces cs)"
  by pat_completeness auto
termination
  by (relation "measure length") (auto simp: le_imp_less_Suc length_dropWhile_le)

function collapse_newlines :: "str \<Rightarrow> str" where
  "collapse_newlines [] = []"
| "collapse_newlines (c # cs) =
     (if 3 \<le> length (takeWhile (\<lambda>x. x = 10) (c # cs))
      then [10, 10] @ collapse_newlines (dropWhile (\<lambda>x. x = 10) (c # cs))
      else c # collapse_newlines cs)"
  by pat_completeness auto
termination
proof (relation "measure length")
  fix c :: nat and cs :: str
  assume "3 \<le> length (takeWhile (\<lambda>x. x = 10) (c # cs))"
  then have "c = 10" by (auto split: if_splits)
  then show "(dropWhile (\<lambda>x. x = 10) (c # cs), c # cs) \<in> measure length"
    by (simp add: le_imp_less_Suc length_dropWhile_le)
qed auto

definition normalize_text :: "ucd \<Rightarrow> str \<Rightarrow> str" where
  "normalize_text uc text =
     (if text = [] then []
      else
        (let text' = dehyphenate uc text;
             lines = split_on 10 text';
             normalized_lines = merge_lines uc lines;
             paragraph_chunks = paragraphs normalized_lines;
             result = join [10, 10] paragraph_chunks
         in collapse_newlines (collapse_spaces result)))"

section \<open>Content filter\<close>

text \<open>
  The seven patterns, character by character; \<open>bs\<close> is the backslash. What
  \<open>re.sub(pattern, '', text, flags=re.IGNORECASE)\<close> returns is a parameter \<open>re_sub\<close>.
\<close>

definition bs :: str where
  "bs = [92]"

definition patterns_to_filter :: "str list" where
  "patterns_to_filter =
     [ustr ''Page '' @ bs @ ustr ''d+ of '' @ bs @ ustr ''d+'',
      ustr ''Copyright '' @ [194, 169] @ ustr ''.*?reserved'',
      ustr ''www'' @ bs @ ustr ''.[a-zA-Z0-9-]+'' @ bs @ ustr ''.[a-z]{2,}'',
      ustr ''[A-Z0-9._%+-]+@[A-Z0-9.-]+'' @ bs @ ustr ''.[A-Z]{2,}'',
      ustr ''(?:(?:'' @ bs @ ustr ''+|00)[1-9]'' @ bs @ ustr ''d{1,2}['' @ bs @ ustr ''s-]?)?(?:''
        @ bs @ ustr ''d{2,4}['' @ bs @ ustr ''s-]?){2,5}'',
      ustr ''ADVERTISEMENT'',
      ustr ''CLASSIFIEDS'']"

definition keep_line :: "ucd \<Rightarrow> str list \<Rightarrow> str \<Rightarrow> str list" where
  "keep_line uc filtered_lines raw =
     (let line = strip uc raw in
      if line = [] then filtered_lines @ [[]]
      else if length (split uc line) \<le> 2 \<and> length line < 15 then filtered_lines
      else filtered_lines @ [line])"

definition filter_content :: "ucd \<Rightarrow> (str \<Rightarrow> str \<Rightarrow> str) \<Rightarrow> str \<Rightarrow> str" where
  "filter_content uc re_sub text =
     (let text' = foldl (\<lambda>t pattern. re_sub pattern t) text patterns_to_filter;
          lines = split_on 10 text';
          filtered_lines = foldl (keep_line uc) [] lines
      in join [10] filtered_lines)"

text \<open>A table for texts that are ASCII only.\<close>

definition asc :: ucd where
  "asc = \<lparr>uc_space = (\<lambda>c. False), uc_word = (\<lambda>c. False), uc_upper = (\<lambda>c. False),
     uc_lower = (\<lambda>c. False), uc_title = (\<lambda>c. False)\<rparr>"

section \<open>The claims about the text\<close>

subsection \<open>Words\<close>

lemma isspace_blank [simp]: "isspace uc 32" "isspace uc 10"
  by (simp_all add: isspace_def)

lemma split_acc_space:
  "isspace uc c \<Longrightarrow> split_acc uc cur (xs @ c # ys) = split_acc uc cur xs @ split_acc uc [] ys"
  by (induction xs arbitrary: cur) simp_all

lemma split_acc_dropWhile:
  "(\<And>x. P x \<Longrightarrow> isspace uc x) \<Longrightarrow> split_acc uc [] (dropWhile P s) = split_acc uc [] s"
  by (induction s) simp_all

lemma split_acc_snoc_space: "isspace uc c \<Longrightarrow> split_acc uc cur (xs @ [c]) = split_acc uc cur xs"
  using split_acc_space [of uc c cur xs "[]"] by simp

lemma split_acc_drop_trailing:
  "split_acc uc cur (rev (dropWhile (isspace uc) (rev s))) = split_acc uc cur s"
  by (induction s rule: rev_induct) (simp_all add: split_acc_snoc_space)

lemma split_strip: "split uc (strip uc s) = split uc s"
  by (simp add: split_def strip_def split_acc_drop_trailing split_acc_dropWhile)

lemma split_acc_spaces:
  "list_all (isspace uc) sep \<Longrightarrow> split_acc uc [] (sep @ b) = split_acc uc [] b"
  by (induction sep) simp_all

lemma split_acc_sep:
  assumes "sep \<noteq> []" "list_all (isspace uc) sep"
  shows "split_acc uc cur (a @ sep @ b) = split_acc uc cur a @ split_acc uc [] b"
proof -
  obtain c sep' where s: "sep = c # sep'" using assms(1) by (cases sep) auto
  then have "isspace uc c" "list_all (isspace uc) sep'" using assms(2) by simp_all
  then show ?thesis
    by (simp add: s split_acc_space split_acc_spaces)
qed

lemma split_join:
  "sep \<noteq> [] \<Longrightarrow> list_all (isspace uc) sep \<Longrightarrow>
   split uc (join sep xs) = concat (map (split uc) xs)"
  by (induction sep xs rule: join.induct) (simp_all add: split_def split_acc_sep)

lemma split_on_nonempty: "split_on sep s \<noteq> []"
  by (induction s) (auto split: list.splits)

lemma join_split_on: "join [sep] (split_on sep s) = s"
proof (induction s)
  case Nil
  show ?case by simp
next
  case (Cons c s)
  obtain p ps where ps: "split_on sep s = p # ps"
    using split_on_nonempty [of sep s] by (cases "split_on sep s") auto
  with Cons show ?case by (cases ps) auto
qed

lemma split_lines: "concat (map (split uc) (split_on 10 s)) = split uc s"
proof -
  have "split uc (join [10] (split_on 10 s)) = concat (map (split uc) (split_on 10 s))"
    by (rule split_join) simp_all
  then show ?thesis by (simp add: join_split_on)
qed

subsection \<open>Merging lines\<close>

definition words_of :: "ucd \<Rightarrow> str list \<Rightarrow> str list" where
  "words_of uc ls = concat (map (split uc) ls)"

lemma words_of_simps [simp]:
  "words_of uc [] = []" "words_of uc (l # ls) = split uc l @ words_of uc ls"
  "words_of uc (xs @ ys) = words_of uc xs @ words_of uc ys"
  by (simp_all add: words_of_def)

lemma split_Nil [simp]: "split uc [] = []"
  by (simp add: split_def)

lemma words_flush: "words_of uc (flush ls buffer) = words_of uc ls @ split uc buffer"
  by (simp add: flush_def)

lemma split_buffer: "split uc (buffer @ 32 # line) = split uc buffer @ split uc line"
  unfolding split_def by (rule split_acc_space) simp

lemma merge_line_words:
  "words_of uc (fst (merge_line uc lines st il)) @ split uc (snd (merge_line uc lines st il)) =
   words_of uc (fst st) @ split uc (snd st) @ split uc (snd il)"
proof -
  let ?line = "strip uc (snd il)"
  have w: "split uc (snd il) = split uc ?line" by (simp add: split_strip)
  show ?thesis
    unfolding w
    by (cases "?line = []")
      (auto simp: merge_line_def Let_def words_flush split_buffer)
qed

lemma merge_fold_words:
  "words_of uc (fst (foldl (merge_line uc lines) st ils))
     @ split uc (snd (foldl (merge_line uc lines) st ils)) =
   words_of uc (fst st) @ split uc (snd st) @ words_of uc (map snd ils)"
proof (induction ils arbitrary: st)
  case Nil
  show ?case by simp
next
  case (Cons il ils)
  show ?case
    using Cons.IH [of "merge_line uc lines st il"] merge_line_words [of uc lines st il]
    by simp
qed

lemma merge_lines_words: "words_of uc (merge_lines uc lines) = words_of uc lines"
  using merge_fold_words [of uc lines "([], [])" "enumerate 0 lines"]
  by (simp add: merge_lines_def Let_def words_flush)

subsection \<open>Paragraphs\<close>

lemma words_close:
  "words_of uc (close_paragraph chunks cur) = words_of uc chunks @ words_of uc cur"
proof -
  have "split uc (join [32] cur) = words_of uc cur"
    unfolding words_of_def by (rule split_join) simp_all
  then show ?thesis by (simp add: close_paragraph_def)
qed

lemma add_line_words:
  "words_of uc (fst (add_line st line)) @ words_of uc (snd (add_line st line)) =
   words_of uc (fst st) @ words_of uc (snd st) @ split uc line"
  by (simp add: add_line_def words_close)

lemma add_fold_words:
  "words_of uc (fst (foldl add_line st ls)) @ words_of uc (snd (foldl add_line st ls)) =
   words_of uc (fst st) @ words_of uc (snd st) @ words_of uc ls"
proof (induction ls arbitrary: st)
  case Nil
  show ?case by simp
next
  case (Cons l ls)
  show ?case
    using Cons.IH [of "add_line st l"] add_line_words [of uc st l] by simp
qed

lemma paragraphs_words: "words_of uc (paragraphs ls) = words_of uc ls"
  using add_fold_words [of uc "([], [])" ls]
  by (simp add: paragraphs_def Let_def words_close)

subsection \<open>Collapsing runs\<close>

lemma split_acc_collapse_spaces:
  "split_acc uc cur (collapse_spaces s) = split_acc uc cur s"
proof (induction s arbitrary: cur rule: collapse_spaces.induct)
  case 1
  show ?case by simp
next
  case (2 c cs)
  show ?case
  proof (cases "c = 32")
    case True
    have "split_acc uc [] (dropWhile (\<lambda>x. x = 32) cs) = split_acc uc [] cs"
      by (rule split_acc_dropWhile) simp
    then show ?thesis using True 2(1) [OF True] by simp
  next
    case False
    then show ?thesis using 2(2) [OF False] by simp
  qed
qed

lemma split_acc_collapse_newlines:
  "split_acc uc cur (collapse_newlines s) = split_acc uc cur s"
proof (induction s arbitrary: cur rule: collapse_newlines.induct)
  case 1
  show ?case by simp
next
  case (2 c cs)
  show ?case
  proof (cases "3 \<le> length (takeWhile (\<lambda>x. x = 10) (c # cs))")
    case True
    then have c: "c = 10" by (auto split: if_splits)
    have "split_acc uc [] (dropWhile (\<lambda>x. x = 10) cs) = split_acc uc [] cs"
      by (rule split_acc_dropWhile) simp
    then show ?thesis using True c 2(1) [OF True] by simp
  next
    case False
    then show ?thesis using 2(2) [OF False] by simp
  qed
qed

text \<open>
  C6 (no text lost). The words of the text that \<open>_normalize_text\<close> returns are the words
  of the de-hyphenated input, in the same order.
\<close>

theorem normalize_keeps_words:
  "split uc (normalize_text uc text) = split uc (dehyphenate uc text)"
proof (cases "text = []")
  case True
  then show ?thesis by (simp add: normalize_text_def)
next
  case False
  let ?lines = "split_on 10 (dehyphenate uc text)"
  have "split uc (join [10, 10] (paragraphs (merge_lines uc ?lines)))
      = words_of uc (paragraphs (merge_lines uc ?lines))"
    unfolding words_of_def by (rule split_join) simp_all
  also have "\<dots> = words_of uc ?lines"
    by (simp add: paragraphs_words merge_lines_words)
  also have "\<dots> = split uc (dehyphenate uc text)"
    by (simp add: words_of_def split_lines)
  finally show ?thesis
    using False
    by (simp add: normalize_text_def Let_def split_def split_acc_collapse_newlines
        split_acc_collapse_spaces)
qed

subsection \<open>Lines of the filtered text\<close>

lemma split_on_no_sep: "p \<in> set (split_on sep s) \<Longrightarrow> sep \<notin> set p"
proof (induction s arbitrary: p)
  case Nil
  then show ?case by simp
next
  case (Cons c s)
  obtain q qs where q: "split_on sep s = q # qs"
    using split_on_nonempty [of sep s] by (cases "split_on sep s") auto
  show ?case
  proof (cases "c = sep")
    case True
    with Cons show ?thesis by auto
  next
    case False
    with Cons.prems q have "p = c # q \<or> p \<in> set qs" by simp
    with Cons.IH q False show ?thesis by auto
  qed
qed

lemma split_on_plain: "sep \<notin> set p \<Longrightarrow> split_on sep p = [p]"
  by (induction p) auto

lemma split_on_append:
  "sep \<notin> set p \<Longrightarrow> split_on sep (p @ sep # s) = p # split_on sep s"
  by (induction p) auto

lemma split_on_join:
  "ps \<noteq> [] \<Longrightarrow> \<forall>p\<in>set ps. sep \<notin> set p \<Longrightarrow> split_on sep (join [sep] ps) = ps"
  by (induction "[sep]" ps rule: join.induct) (simp_all add: split_on_plain split_on_append)

lemma set_strip: "set (strip uc s) \<subseteq> set s"
proof -
  have "set (strip uc s) \<subseteq> set (dropWhile (isspace uc) s)"
    unfolding strip_def using set_dropWhileD [of _ "isspace uc" "rev (dropWhile (isspace uc) s)"]
    by auto
  then show ?thesis using set_dropWhileD [of _ "isspace uc" s] by blast
qed

definition kept :: "ucd \<Rightarrow> str \<Rightarrow> bool" where
  "kept uc line \<longleftrightarrow> line = [] \<or> \<not> (length (split uc line) \<le> 2 \<and> length line < 15)"

lemma set_keep_lines:
  "set (foldl (keep_line uc) acc lines) =
     set acc \<union> {strip uc raw |raw. raw \<in> set lines \<and> kept uc (strip uc raw)}"
proof (induction lines arbitrary: acc)
  case Nil
  show ?case by simp
next
  case (Cons raw lines)
  have "set (keep_line uc acc raw) =
      set acc \<union> (if kept uc (strip uc raw) then {strip uc raw} else {})"
    by (auto simp: keep_line_def kept_def Let_def)
  then show ?case unfolding foldl_Cons Cons.IH by auto
qed

lemma filter_content_lines:
  assumes "l \<in> set (split_on 10 (filter_content uc re_sub text))"
  shows "l = [] \<or> (\<exists>raw \<in> set (split_on 10 (foldl (\<lambda>t pattern. re_sub pattern t) text patterns_to_filter)).
            l = strip uc raw \<and> kept uc l)"
proof -
  let ?lines = "split_on 10 (foldl (\<lambda>t pattern. re_sub pattern t) text patterns_to_filter)"
  let ?f = "foldl (keep_line uc) [] ?lines"
  have out: "filter_content uc re_sub text = join [10] ?f"
    by (simp add: filter_content_def Let_def)
  show ?thesis
  proof (cases "?f = []")
    case True
    with assms out show ?thesis by simp
  next
    case False
    have "\<forall>p\<in>set ?f. 10 \<notin> set p"
      using split_on_no_sep [of _ 10] set_strip [of uc]
      by (fastforce simp: set_keep_lines)
    then have "split_on 10 (join [10] ?f) = ?f" using False by (simp add: split_on_join)
    with assms out have "l \<in> set ?f" by simp
    then show ?thesis by (auto simp: set_keep_lines)
  qed
qed

text \<open>
  C7 (short lines), as amended. Every non-empty line of the text that \<open>_filter_content\<close>
  returns has more than two words or at least 15 characters; and a line of the text after
  the substitutions that, stripped, is not empty, has at most two words and fewer than 15
  characters is not a line of the result.
\<close>

theorem short_lines_filtered:
  "(\<forall>l\<in>set (split_on 10 (filter_content uc re_sub text)).
      l \<noteq> [] \<longrightarrow> 2 < length (split uc l) \<or> 15 \<le> length l)
   \<and> (\<forall>raw\<in>set (split_on 10 (foldl (\<lambda>t pattern. re_sub pattern t) text patterns_to_filter)).
        strip uc raw \<noteq> [] \<and> length (split uc (strip uc raw)) \<le> 2 \<and> length (strip uc raw) < 15
        \<longrightarrow> strip uc raw \<notin> set (split_on 10 (filter_content uc re_sub text)))"
proof -
  have long: "2 < length (split uc l) \<or> 15 \<le> length l"
    if "l \<in> set (split_on 10 (filter_content uc re_sub text))" "l \<noteq> []" for l
    using filter_content_lines [OF that(1)] that(2) by (auto simp: kept_def)
  then show ?thesis by fastforce
qed

text \<open>\<open>re.sub\<close> on a text in which the pattern does not occur returns the text.\<close>

definition no_match :: "str \<Rightarrow> str \<Rightarrow> str" where
  "no_match pattern text = text"

definition page_text :: str where
  "page_text = ustr ''The quick brown fox jumps\<newline>Hi there\<newline>\<newline>over the lazy dog again''"

lemma page_text_filtered:
  "filter_content asc no_match page_text =
     ustr ''The quick brown fox jumps\<newline>\<newline>over the lazy dog again''"
  by code_simp

lemma page_text_lines:
  "split_on 10 (foldl (\<lambda>t pattern. no_match pattern t) page_text patterns_to_filter) =
     [ustr ''The quick brown fox jumps'', ustr ''Hi there'', [], ustr ''over the lazy dog again'']"
  by code_simp

lemma page_text_out_lines:
  "split_on 10 (filter_content asc no_match page_text) =
     [ustr ''The quick brown fox jumps'', [], ustr ''over the lazy dog again'']"
  by code_simp

theorem short_lines_filtered_witness:
  "ustr ''Hi there'' \<in> set (split_on 10 (foldl (\<lambda>t pattern. no_match pattern t) page_text patterns_to_filter))
   \<and> strip asc (ustr ''Hi there'') = ustr ''Hi there''
   \<and> length (split asc (ustr ''Hi there'')) = 2 \<and> length (ustr ''Hi there'') = 8
   \<and> ustr ''Hi there'' \<notin> set (split_on 10 (filter_content asc no_match page_text))
   \<and> ustr ''The quick brown fox jumps'' \<in> set (split_on 10 (filter_content asc no_match page_text))
   \<and> 2 < length (split asc (ustr ''The quick brown fox jumps''))"
proof -
  have a: "strip asc (ustr ''Hi there'') = ustr ''Hi there''"
    "length (split asc (ustr ''Hi there'')) = 2" "length (ustr ''Hi there'') = 8"
    "length (split asc (ustr ''The quick brown fox jumps'')) = 5"
    by code_simp+
  have m: "ustr ''Hi there''
      \<in> set (split_on 10 (foldl (\<lambda>t pattern. no_match pattern t) page_text patterns_to_filter))"
    by (simp add: page_text_lines)
  have n: "ustr ''Hi there'' \<noteq> []" by (simp add: ustr_def)
  have "ustr ''Hi there'' \<notin> set (split_on 10 (filter_content asc no_match page_text))"
    using short_lines_filtered [of asc no_match page_text] m a n by fastforce
  moreover have "ustr ''The quick brown fox jumps''
      \<in> set (split_on 10 (filter_content asc no_match page_text))"
    by (simp add: page_text_out_lines)
  ultimately show ?thesis using a m by simp
qed

text \<open>
  A blank line has no word and no character, so at most two words and fewer than 15
  characters, and it is kept: the loop appends \<open>''\<close> for it.
\<close>

theorem blank_line_kept_counterexample:
  "[] \<in> set (split_on 10 (foldl (\<lambda>t pattern. no_match pattern t) page_text patterns_to_filter))
   \<and> length (split asc (strip asc [])) \<le> 2 \<and> length (strip asc []) < 15
   \<and> strip asc [] \<in> set (split_on 10 (filter_content asc no_match page_text))"
  by (simp add: page_text_lines page_text_out_lines strip_def)

text \<open>
  C5 (de-hyphenation). A word broken over three lines has two occurrences of a fragment,
  a hyphen, a line break and a fragment. They share the middle fragment, \<open>re.sub\<close>
  replaces matches that do not overlap, and the second hyphen and line break stay.
\<close>

theorem chained_hyphenation:
  "dehyphenate asc (ustr ''inter-\<newline>nation-\<newline>al news'') = ustr ''internation-\<newline>al news''
   \<and> normalize_text asc (ustr ''inter-\<newline>nation-\<newline>al news'') = ustr ''internation- al news''"
  by code_simp

section \<open>Scraping a website\<close>

text \<open>
  \<open>bytes\<close> is a sequence of byte values. A path is the list of its components. The
  exceptions that can leave \<open>scrape_website\<close>: \<open>urlparse\<close> or \<open>mkdir\<close> raising inside
  \<open>_create_output_directory\<close>, \<open>ThreadPoolExecutor\<close> refusing \<open>max_workers \<le> 0\<close>, and
  \<open>write_text\<close> raising. Inside \<open>_download_pdf\<close> and \<open>_extract_text_from_pdf\<close> every
  \<open>Exception\<close> is caught, so they have no such branch.
\<close>

type_synonym bytes = "nat list"
type_synonym path = "str list"


text \<open>
  What \<open>scrape_website\<close> meets outside the program:
  \<^item> \<open>netloc url\<close> is \<open>urlparse(url).netloc\<close>, or \<open>None\<close> when \<open>urlparse\<close> raises;
  \<^item> \<open>cwd\<close> is \<open>Path.cwd()\<close>; \<open>mkdir p\<close> tells whether
    \<open>p.mkdir(parents=True, exist_ok=True)\<close> returns, and \<open>write_text p t\<close> whether
    \<open>p.write_text(t, encoding="utf-8")\<close> does;
  \<^item> \<open>download url\<close> is \<open>response.content\<close>, or \<open>None\<close> when the request raised;
  \<^item> \<open>pdf_pages content\<close> is \<open>page.get_text()\<close> for each page of the document, or
    \<open>None\<close> when \<open>pymupdf\<close> raised;
  \<^item> \<open>re_sub\<close> is the substitution of \<open>_filter_content\<close>;
  \<^item> \<open>as_completed urls\<close> is the order in which the submitted downloads complete.
\<close>

record machine =
  netloc :: "str \<Rightarrow> str option"
  cwd :: path
  mkdir :: "path \<Rightarrow> bool"
  download :: "str \<Rightarrow> bytes option"
  pdf_pages :: "bytes \<Rightarrow> str list option"
  re_sub :: "str \<Rightarrow> str \<Rightarrow> str"
  as_completed :: "str list \<Rightarrow> str list"
  write_text :: "path \<Rightarrow> str \<Rightarrow> bool"












subsection \<open>What leaves the loop over the downloads\<close>









subsection \<open>Machines\<close>





















end
